theory Spec2Isabelle
  imports Main "HOL-Library.Word" "HOL-Library.Multiset"
begin

unbundle bit_operations_syntax

section \<open>hidg: the keyboard report state machine of \<^verbatim>\<open>hidg.go\<close>\<close>

text \<open>
  The development embeds the encoding engine of \<^verbatim>\<open>src/hidg.go\<close>: the two
  translation tables (\<^verbatim>\<open>mapping\<close>, \<^verbatim>\<open>kb_mod\<close>), the method
  \<^verbatim>\<open>updateReport\<close>, the worker \<^verbatim>\<open>eventWriter\<close> and the key synthesis
  fragment of \<^verbatim>\<open>main\<close>.  Go's run-time panics are values of type \<open>panic\<close>,
  output on stdout and on the device file is an explicit trace.
\<close>

subsection \<open>Data\<close>

type_synonym byte = "8 word"
type_synonym uint16 = "16 word"
type_synonym int32 = "32 word"
type_synonym rune = "32 word"

text \<open>
  \<^verbatim>\<open>evdev.Event\<close> as \<^verbatim>\<open>updateReport\<close> reads it: the fields \<^verbatim>\<open>Type\<close>,
  \<^verbatim>\<open>Code\<close> (both \<^verbatim>\<open>uint16\<close>) and \<^verbatim>\<open>Value\<close> (\<^verbatim>\<open>int32\<close>, only ever
  compared with 0).  The time stamp of the library's struct is never read.
\<close>

record Event =
  Type :: uint16
  Code :: uint16
  Value :: int32

text \<open>\<^verbatim>\<open>evdev.EvKeys\<close>, the event type of key events (\<^verbatim>\<open>EV_KEY\<close> of the Linux input layer).\<close>

definition EvKeys :: uint16 where
  "EvKeys = 1"

text \<open>
  \<^verbatim>\<open>evdev.KeyLeftCtrl\<close> and \<^verbatim>\<open>evdev.KeyLeftShift\<close>: the codes that the comments of
  \<^verbatim>\<open>kb_mod\<close> name left-ctrl and left-shift.
\<close>

definition KeyLeftCtrl :: uint16 where
  "KeyLeftCtrl = 29"

definition KeyLeftShift :: uint16 where
  "KeyLeftShift = 42"

text \<open>
  The fields \<^verbatim>\<open>report [8]byte\<close> and \<^verbatim>\<open>keys int\<close> of \<^verbatim>\<open>UsbHid\<close>.  The two
  channels and the file are the input list and the trace of \<open>eventWriter\<close> below.
  An array of type \<^verbatim>\<open>[8]byte\<close> is a list of length 8.
\<close>

record UsbHid =
  report :: "byte list"
  keys :: int

text \<open>\<^verbatim>\<open>new(UsbHid)\<close> in \<^verbatim>\<open>Open\<close>: every field has its zero value.\<close>

definition new_UsbHid :: UsbHid where
  "new_UsbHid = \<lparr>report = [0, 0, 0, 0, 0, 0, 0, 0], keys = 0\<rparr>"

datatype panic = IndexOutOfRange | SliceBoundsOutOfRange

subsection \<open>Translation tables\<close>

definition mapping :: "byte list" where
  "mapping = [3, 41, 30, 31, 32, 33, 34, 35, 36, 37, 38,
    39, 45, 46, 42, 43, 20, 26, 8, 21, 23, 28, 24, 12, 18, 19,
    47, 48, 40, 224, 4, 22, 7, 9, 10, 11, 13, 14, 15, 51, 52,
    53, 225, 50, 29, 27, 6, 25, 5, 17, 16, 54, 55, 56, 229, 85,
    226, 44, 57, 58, 59, 60, 61, 62, 63, 64, 65, 66, 67, 83,
    71, 95, 96, 97, 86, 92, 93, 94, 87, 89, 90, 91, 98, 99, 0,
    148, 100, 68, 69, 135, 146, 147, 138, 136, 139, 140, 88, 228,
    84, 70, 230, 0, 74, 82, 75, 80, 79, 77, 81, 78, 73, 76, 0,
    239, 238, 237, 102, 103, 0, 72, 0, 133, 144, 145, 137, 227,
    231, 101, 243, 121, 118, 122, 119, 124, 116, 125, 244, 123,
    117, 0, 251, 0, 248, 0, 0, 0, 0, 0, 0, 0, 240, 0,
    249, 0, 0, 0, 0, 0, 241, 242, 0, 236, 0, 235, 232, 234,
    233, 0, 0, 0, 0, 0, 0, 250, 0, 0, 247, 245, 246, 182,
    183, 0, 0, 104, 105, 106, 107, 108, 109, 110, 111, 112, 113,
    114]"

text \<open>
  The expression \<^verbatim>\<open>mapping[ev.Code]\<close>: indexing a slice beyond its length is a
  run-time panic in Go.
\<close>

definition mapping_at :: "uint16 \<Rightarrow> panic + byte" where
  "mapping_at c = (if unat c < length mapping then Inr (mapping ! unat c) else Inl IndexOutOfRange)"

definition kb_mod_entries :: "(uint16 \<times> byte) list" where
  "kb_mod_entries =
    [(29, 0x01), (97, 0x10), (42, 0x02), (54, 0x20),
     (56, 0x04), (100, 0x40), (125, 0x08), (126, 0x80)]"

text \<open>
  The expression \<^verbatim>\<open>kb_mod[ev.Code]\<close>: indexing a Go map with a key it does not
  hold yields the zero value of the element type.
\<close>

definition kb_mod :: "uint16 \<Rightarrow> byte" where
  "kb_mod c = (case map_of kb_mod_entries c of None \<Rightarrow> 0 | Some m \<Rightarrow> m)"

subsection \<open>The report state machine\<close>

text \<open>The decimal digits that \<^verbatim>\<open>%d\<close> prints for a non-negative number.\<close>

fun decimal :: "nat \<Rightarrow> string" where
  "decimal n =
     (if n < 10 then [char_of (48 + n)]
      else decimal (n div 10) @ [char_of (48 + n mod 10)])"

definition warning :: "uint16 \<Rightarrow> string" where
  "warning c = ''Warning: No mapping for event code: '' @ decimal (unat c) @ [CHR 0x0A]"

text \<open>
  The search loop of \<^verbatim>\<open>updateReport\<close> over the slice
  \<^verbatim>\<open>hid.report[2 : 2+hid.keys]\<close>: \<open>keyPos\<close> starts as \<open>-1\<close> and becomes the
  index of the first element equal to the usage ID.
\<close>

fun findKey :: "byte list \<Rightarrow> byte \<Rightarrow> nat \<Rightarrow> int" where
  "findKey [] u i = - 1"
| "findKey (c # cs) u i = (if c = u then int i else findKey cs u (Suc i))"

text \<open>
  \<^verbatim>\<open>updateReport\<close>.  The result is the panic, or the lines printed on stdout and
  the new state.  \<^verbatim>\<open>len(hid.report)\<close> is the constant 8.  The slice expression
  \<^verbatim>\<open>hid.report[2 : 2+hid.keys]\<close> panics unless \<open>2 \<le> 2 + keys \<le> 8\<close>; after it
  every index the code uses lies inside the array, and \<^verbatim>\<open>keys\<close> never leaves
  the range of a machine integer.
\<close>

definition updateReport :: "UsbHid \<Rightarrow> Event \<Rightarrow> panic + (string list \<times> UsbHid)" where
  "updateReport hid ev =
    (if Type ev = EvKeys then
       if kb_mod (Code ev) \<noteq> 0 then
         if Value ev \<noteq> 0
         then Inr ([], hid\<lparr>report := (report hid)[0 := report hid ! 0 OR kb_mod (Code ev)]\<rparr>)
         else Inr ([], hid\<lparr>report := (report hid)[0 := report hid ! 0 AND NOT (kb_mod (Code ev))]\<rparr>)
       else
         (case mapping_at (Code ev) of
            Inl p \<Rightarrow> Inl p
          | Inr u \<Rightarrow>
              if u = 0 then Inr ([warning (Code ev)], hid)
              else if keys hid < 0 \<or> 8 < 2 + keys hid then Inl SliceBoundsOutOfRange
              else
                let keyPos = findKey (take (nat (keys hid)) (drop 2 (report hid))) u 0 in
                if keyPos \<noteq> - 1 then
                  if Value ev = 0 then
                    let r1 = (if keys hid > keyPos
                              then (report hid)[nat (keyPos + 2) := report hid ! nat (keys hid + 1)]
                              else report hid);
                        r2 = r1[nat (keys hid + 1) := 0]
                    in Inr ([], hid\<lparr>report := r2, keys := keys hid - 1\<rparr>)
                  else Inr ([], hid)
                else
                  if keys hid < 8 - 2
                  then Inr ([], hid\<lparr>report := (report hid)[nat (2 + keys hid) := u],
                                     keys := keys hid + 1\<rparr>)
                  else Inr ([], hid\<lparr>report := (report hid)[8 - 1 := u]\<rparr>))
     else Inr ([], hid))"

text \<open>
  The calls of \<^verbatim>\<open>updateReport\<close> that the worker makes for a list of events, in
  order; the first panic ends the run.
\<close>

fun applyAll :: "UsbHid \<Rightarrow> Event list \<Rightarrow> panic + (string list \<times> UsbHid)" where
  "applyAll hid [] = Inr ([], hid)"
| "applyAll hid (ev # evs) =
     (case updateReport hid ev of
        Inl p \<Rightarrow> Inl p
      | Inr (out, hid') \<Rightarrow>
          (case applyAll hid' evs of
             Inl p \<Rightarrow> Inl p
           | Inr (out', hid'') \<Rightarrow> Inr (out @ out', hid'')))"

subsection \<open>The worker\<close>

text \<open>
  \<^verbatim>\<open>eventWriter\<close>.  The list of \<open>select\<close> values is the order in which the two
  channels become ready; \<open>dev k\<close> is the number of bytes that the \<open>k\<close>-th call of
  \<^verbatim>\<open>hid.file.Write\<close> accepts.  The trace holds the lines printed and the calls on
  the file, \<^verbatim>\<open>Close\<close> being the deferred call that runs when the function returns
  or panics.  With no channel ready the worker waits.
\<close>

datatype select = RecvEv Event | RecvExit

datatype action = Print string | Write "byte list" nat | Sync | Close

datatype outcome = Returned | Panicked panic | Waiting UsbHid

fun eventWriter :: "(nat \<Rightarrow> nat) \<Rightarrow> nat \<Rightarrow> UsbHid \<Rightarrow> select list \<Rightarrow> action list \<times> outcome" where
  "eventWriter dev k hid [] = ([], Waiting hid)"
| "eventWriter dev k hid (RecvExit # ms) = ([Close], Returned)"
| "eventWriter dev k hid (RecvEv ev # ms) =
     (case updateReport hid ev of
        Inl p \<Rightarrow> ([Close], Panicked p)
      | Inr (out, hid') \<Rightarrow>
          if dev k \<noteq> 8
          then (map Print out @
                [Write (report hid') (dev k), Print (''ERROR: Write failed'' @ [CHR 0x0A]), Close],
                Returned)
          else (case eventWriter dev (Suc k) hid' ms of
                  (tr, oc) \<Rightarrow> (map Print out @ [Write (report hid') 8, Sync] @ tr, oc)))"

subsection \<open>Key synthesis\<close>

text \<open>The struct literal \<^verbatim>\<open>evdev.Event{Type: evdev.EvKeys, Code: c, Value: v}\<close> of \<^verbatim>\<open>main\<close>.\<close>

definition keyEvent :: "uint16 \<Rightarrow> int32 \<Rightarrow> Event" where
  "keyEvent c v = \<lparr>Type = EvKeys, Code = c, Value = v\<rparr>"

text \<open>Indexing one of the rune tables: the zero value for a rune the table does not hold.\<close>

definition lookup0 :: "(rune \<rightharpoonup> uint16) \<Rightarrow> rune \<Rightarrow> uint16" where
  "lookup0 t r = (case t r of None \<Rightarrow> 0 | Some k \<Rightarrow> k)"

text \<open>
  The case \<^verbatim>\<open>*tcell.EventKey\<close> of \<^verbatim>\<open>main\<close>: the events it passes to
  \<^verbatim>\<open>ForwardEvent\<close>, in order, for the rune \<^verbatim>\<open>ev.Rune()\<close>; \<open>ctrl\<close> is the test
  \<^verbatim>\<open>ev.Modifiers()&tcell.ModCtrl != 0\<close>.  The three tables \<^verbatim>\<open>tcelltoev\<close>,
  \<^verbatim>\<open>tcellctrltoev\<close> and \<^verbatim>\<open>tcellshiftokey\<close> are parameters: their entries are
  constants of the libraries evdev and tcell.  A rune is an \<^verbatim>\<open>int32\<close>, compared as
  a signed number.
\<close>

definition main_EventKey ::
  "(rune \<rightharpoonup> uint16) \<Rightarrow> (rune \<rightharpoonup> uint16) \<Rightarrow> (rune \<rightharpoonup> uint16) \<Rightarrow> bool \<Rightarrow> rune \<Rightarrow> Event list" where
  "main_EventKey tcelltoev tcellctrltoev tcellshiftokey ctrl pressedkey =
     (if ctrl then
        let key = lookup0 tcellctrltoev pressedkey
        in [keyEvent KeyLeftCtrl 1, keyEvent key 1, keyEvent key 0, keyEvent KeyLeftCtrl 0]
      else
        (case tcellshiftokey pressedkey of
           Some key \<Rightarrow>
             [keyEvent KeyLeftShift 1, keyEvent key 1, keyEvent key 0, keyEvent KeyLeftShift 0]
         | None \<Rightarrow>
             if word_sle 65 pressedkey \<and> word_sle pressedkey 90 then
               let key = lookup0 tcelltoev (pressedkey + 32)
               in [keyEvent KeyLeftShift 1, keyEvent key 1, keyEvent key 0, keyEvent KeyLeftShift 0]
             else
               let key = lookup0 tcelltoev pressedkey
               in [keyEvent key 1, keyEvent key 0]))"

subsection \<open>Vocabulary of the properties\<close>

text \<open>The usage ID of a code inside the table.\<close>

definition usage :: "uint16 \<Rightarrow> byte" where
  "usage c = mapping ! unat c"

text \<open>A regular key: not a modifier, inside the table, with a usage ID other than 0.\<close>

definition regular_key :: "uint16 \<Rightarrow> bool" where
  "regular_key c \<longleftrightarrow> kb_mod c = 0 \<and> unat c < length mapping \<and> usage c \<noteq> 0"

text \<open>A key event is a press when its value is not 0, and a release when it is 0.\<close>

definition key_down :: "Event \<Rightarrow> bool" where
  "key_down e \<longleftrightarrow> Type e = EvKeys \<and> Value e \<noteq> 0"

definition key_up :: "Event \<Rightarrow> bool" where
  "key_up e \<longleftrightarrow> Type e = EvKeys \<and> Value e = 0"

text \<open>
  The state with modifier byte \<open>m\<close> in which the usage IDs \<open>us\<close> fill the first slots
  of bytes 2--7.
\<close>

definition tracked :: "byte \<Rightarrow> byte list \<Rightarrow> UsbHid" where
  "tracked m us = \<lparr>report = m # 0 # us @ replicate (6 - length us) 0, keys = int (length us)\<rparr>"

text \<open>
  The invariant of the report state: \<open>keys\<close> lies in \<open>[0, 6]\<close> and counts the
  non-zero bytes among bytes 2--7, no byte from slot \<open>2 + keys\<close> on is non-zero, and
  byte 1 is 0.
\<close>

definition ReportState_inv :: "UsbHid \<Rightarrow> bool" where
  "ReportState_inv hid \<longleftrightarrow>
     length (report hid) = 8 \<and> 0 \<le> keys hid \<and> keys hid \<le> 6 \<and>
     keys hid = int (length (filter (\<lambda>b. b \<noteq> 0) (drop 2 (report hid)))) \<and>
     filter (\<lambda>b. b \<noteq> 0) (drop (2 + nat (keys hid)) (report hid)) = [] \<and>
     report hid ! 1 = 0"

section \<open>Properties\<close>

subsection \<open>The search loop\<close>

lemma findKey_notin: "u \<notin> set xs \<Longrightarrow> findKey xs u i = - 1"
  by (induction xs arbitrary: i) auto

lemma findKey_in:
  "u \<in> set xs \<Longrightarrow> \<exists>j<length xs. findKey xs u i = int (i + j) \<and> xs ! j = u \<and> u \<notin> set (take j xs)"
proof (induction xs arbitrary: i)
  case Nil
  then show ?case by simp
next
  case (Cons c cs)
  show ?case
  proof (cases "c = u")
    case True
    then show ?thesis by (intro exI [of _ 0]) simp
  next
    case False
    with Cons.prems have "u \<in> set cs" by simp
    from Cons.IH [OF this, of "Suc i"] obtain j where
      j: "j < length cs" "findKey cs u (Suc i) = int (Suc i + j)" "cs ! j = u" "u \<notin> set (take j cs)"
      by blast
    with False show ?thesis by (intro exI [of _ "Suc j"]) simp
  qed
qed

lemma findKey_distinct:
  "distinct xs \<Longrightarrow> j < length xs \<Longrightarrow> findKey xs (xs ! j) i = int (i + j)"
proof (induction xs arbitrary: i j)
  case Nil
  then show ?case by simp
next
  case (Cons c cs)
  then show ?case by (cases j) auto
qed

subsection \<open>The branches of \<open>updateReport\<close> on a tracked state\<close>

lemma regular_mapping_at: "regular_key c \<Longrightarrow> mapping_at c = Inr (usage c)"
  by (simp add: regular_key_def mapping_at_def usage_def)

lemma upd_add:
  assumes "Type e = EvKeys" "regular_key (Code e)" "usage (Code e) \<notin> set us" "length us < 6"
  shows "updateReport (tracked m us) e = Inr ([], tracked m (us @ [usage (Code e)]))"
proof -
  have k: "kb_mod (Code e) = 0" "usage (Code e) \<noteq> 0" using assms(2) by (simp_all add: regular_key_def)
  have f: "findKey us (usage (Code e)) 0 = - 1" using assms(3) by (rule findKey_notin)
  have r: "replicate (6 - length us) (0::byte) = 0 # replicate (5 - length us) 0"
    using assms(4) by (cases "6 - length us") (simp_all add: Suc_diff_Suc)
  have "(m # 0 # us @ replicate (6 - length us) 0)[Suc (Suc (length us)) := usage (Code e)]
      = m # 0 # (us @ [usage (Code e)]) @ replicate (5 - length us) 0"
    by (simp add: r list_update_append)
  then show ?thesis
    using assms(1,4) k f
    by (simp add: updateReport_def regular_mapping_at [OF assms(2)] tracked_def nat_add_distrib)
qed

lemma upd_overflow:
  assumes "Type e = EvKeys" "regular_key (Code e)" "usage (Code e) \<notin> set us" "length us = 6"
  shows "updateReport (tracked m us) e = Inr ([], tracked m (us[5 := usage (Code e)]))"
proof -
  have k: "kb_mod (Code e) = 0" "usage (Code e) \<noteq> 0" using assms(2) by (simp_all add: regular_key_def)
  have f: "findKey us (usage (Code e)) 0 = - 1" using assms(3) by (rule findKey_notin)
  show ?thesis
    using assms(1,4) k f
    by (simp add: updateReport_def regular_mapping_at [OF assms(2)] tracked_def)
qed

lemma upd_held:
  assumes "Type e = EvKeys" "regular_key (Code e)" "usage (Code e) \<in> set us" "length us \<le> 6"
    "Value e \<noteq> 0"
  shows "updateReport (tracked m us) e = Inr ([], tracked m us)"
proof -
  have k: "kb_mod (Code e) = 0" "usage (Code e) \<noteq> 0" using assms(2) by (simp_all add: regular_key_def)
  from findKey_in [OF assms(3), of 0] have f: "findKey us (usage (Code e)) 0 \<noteq> - 1" by auto
  show ?thesis
    using assms(1,4,5) k f
    by (simp add: updateReport_def regular_mapping_at [OF assms(2)] tracked_def)
qed

lemma swap_remove_list:
  assumes "j < length us" "length us \<le> 6"
  shows "((m::byte) # 0 # us @ replicate (6 - length us) 0)
           [Suc (Suc j) := (m # 0 # us @ replicate (6 - length us) 0) ! Suc (length us),
            Suc (length us) := 0]
         = m # 0 # butlast (us[j := last us]) @ replicate (6 - (length us - 1)) 0"
proof (cases us rule: rev_cases)
  case Nil
  with assms show ?thesis by simp
next
  case (snoc vs v)
  have r: "replicate (6 - length vs) (0::byte) = 0 # replicate (5 - length vs) 0"
    using assms(2) snoc by (cases "6 - length vs") (simp_all add: Suc_diff_Suc)
  show ?thesis
    unfolding snoc using assms snoc
    by (auto simp add: r list_update_append nth_append butlast_append split: nat.splits)
qed

lemma upd_release:
  assumes "Type e = EvKeys" "regular_key (Code e)" "Value e = 0" "length us \<le> 6"
    "findKey us (usage (Code e)) 0 = int j" "j < length us"
  shows "updateReport (tracked m us) e = Inr ([], tracked m (butlast (us[j := last us])))"
proof -
  have k: "kb_mod (Code e) = 0" "usage (Code e) \<noteq> 0" using assms(2) by (simp_all add: regular_key_def)
  have n: "nat (int j + 2) = Suc (Suc j)" "nat (int (length us) + 1) = Suc (length us)"
    by simp_all
  show ?thesis
    using assms(1,3,4,5,6) k swap_remove_list [OF assms(6,4), of m]
    by (simp add: updateReport_def regular_mapping_at [OF assms(2)] tracked_def n Let_def)
qed

lemma upd_modifier:
  assumes "Type e = EvKeys" "kb_mod (Code e) \<noteq> 0"
  shows "updateReport (tracked m us) e =
     Inr ([], tracked (if Value e \<noteq> 0 then m OR kb_mod (Code e) else m AND NOT (kb_mod (Code e))) us)"
  using assms by (simp add: updateReport_def tracked_def)

lemma upd_unmapped:
  assumes "Type e = EvKeys" "kb_mod (Code e) = 0" "unat (Code e) < length mapping" "usage (Code e) = 0"
  shows "updateReport hid e = Inr ([warning (Code e)], hid)"
  using assms by (simp add: updateReport_def mapping_at_def usage_def)

lemma upd_other_type: "Type e \<noteq> EvKeys \<Longrightarrow> updateReport hid e = Inr ([], hid)"
  by (simp add: updateReport_def)

lemma upd_out_of_table:
  assumes "Type e = EvKeys" "kb_mod (Code e) = 0" "length mapping \<le> unat (Code e)"
  shows "updateReport hid e = Inl IndexOutOfRange"
  using assms by (simp add: updateReport_def mapping_at_def)

subsection \<open>The invariant\<close>

lemma filter_nonzero_id: "0 \<notin> set us \<Longrightarrow> filter (\<lambda>b. b \<noteq> (0::byte)) us = us"
  by (induction us) auto

lemma tracked_inv:
  assumes "length us \<le> 6" "0 \<notin> set us"
  shows "ReportState_inv (tracked m us)"
  using assms by (simp add: ReportState_inv_def tracked_def filter_nonzero_id)

lemma new_UsbHid_tracked: "new_UsbHid = tracked 0 []"
  by (simp add: new_UsbHid_def tracked_def numeral_eq_Suc)

lemma set_swap_remove: "set (butlast (us[j := last us])) \<subseteq> set us"
proof (cases "us = []")
  case True
  then show ?thesis by simp
next
  case False
  have "set (butlast (us[j := last us])) \<subseteq> set (us[j := last us])"
    by (auto dest: in_set_butlastD)
  also have "\<dots> \<subseteq> insert (last us) (set us)"
    by (rule set_update_subset_insert)
  also have "\<dots> = set us"
    using False by auto
  finally show ?thesis .
qed

lemma upd_tracked_cases:
  assumes "length us \<le> 6" "0 \<notin> set us"
  shows "(\<exists>out m' us'. updateReport (tracked m us) e = Inr (out, tracked m' us') \<and>
            length us' \<le> 6 \<and> 0 \<notin> set us') \<or>
         (updateReport (tracked m us) e = Inl IndexOutOfRange \<and> Type e = EvKeys \<and>
            kb_mod (Code e) = 0 \<and> length mapping \<le> unat (Code e))"
proof -
  consider (other) "Type e \<noteq> EvKeys"
    | (modifier) "Type e = EvKeys" "kb_mod (Code e) \<noteq> 0"
    | (outside) "Type e = EvKeys" "kb_mod (Code e) = 0" "length mapping \<le> unat (Code e)"
    | (unmapped) "Type e = EvKeys" "kb_mod (Code e) = 0" "unat (Code e) < length mapping"
        "usage (Code e) = 0"
    | (regular) "Type e = EvKeys" "regular_key (Code e)"
    unfolding regular_key_def by fastforce
  then show ?thesis
  proof cases
    case other
    with assms show ?thesis by (auto simp: upd_other_type)
  next
    case modifier
    with assms show ?thesis by (auto simp: upd_modifier)
  next
    case outside
    then show ?thesis by (simp add: upd_out_of_table)
  next
    case unmapped
    with assms show ?thesis by (auto simp: upd_unmapped)
  next
    case regular
    have nz: "usage (Code e) \<noteq> 0" using regular(2) by (simp add: regular_key_def)
    show ?thesis
    proof (cases "usage (Code e) \<in> set us")
      case True
      show ?thesis
      proof (cases "Value e = 0")
        case v: True
        from findKey_in [OF True, of 0] obtain j where
          j: "j < length us" "findKey us (usage (Code e)) 0 = int j" by auto
        have "updateReport (tracked m us) e = Inr ([], tracked m (butlast (us[j := last us])))"
          using regular v assms(1) j by (intro upd_release) auto
        moreover have "length (butlast (us[j := last us])) \<le> 6" using assms(1) by simp
        moreover have "0 \<notin> set (butlast (us[j := last us]))"
          using assms(2) set_swap_remove [of us j] by blast
        ultimately show ?thesis by blast
      next
        case False
        with regular True assms show ?thesis by (auto simp: upd_held)
      qed
    next
      case False
      show ?thesis
      proof (cases "length us < 6")
        case l: True
        have "updateReport (tracked m us) e = Inr ([], tracked m (us @ [usage (Code e)]))"
          using regular False l by (rule upd_add)
        moreover have "length (us @ [usage (Code e)]) \<le> 6" using l by simp
        moreover have "0 \<notin> set (us @ [usage (Code e)])" using assms(2) nz by auto
        ultimately show ?thesis by blast
      next
        case g: False
        with assms(1) have l: "length us = 6" by simp
        have "updateReport (tracked m us) e = Inr ([], tracked m (us[5 := usage (Code e)]))"
          using regular False l by (rule upd_overflow)
        moreover have "length (us[5 := usage (Code e)]) \<le> 6" using l by simp
        moreover have "0 \<notin> set (us[5 := usage (Code e)])"
          using assms(2) nz set_update_subset_insert [of us 5 "usage (Code e)"] by auto
        ultimately show ?thesis by blast
      qed
    qed
  qed
qed

lemma applyAll_tracked:
  assumes "length us \<le> 6" "0 \<notin> set us"
  shows "(case applyAll (tracked m us) evs of
            Inr (out, hid) \<Rightarrow> ReportState_inv hid
          | Inl p \<Rightarrow> p = IndexOutOfRange \<and>
              (\<exists>e \<in> set evs. Type e = EvKeys \<and> kb_mod (Code e) = 0 \<and> length mapping \<le> unat (Code e)))"
  using assms
proof (induction evs arbitrary: m us)
  case Nil
  then show ?case by (simp add: tracked_inv)
next
  case (Cons e evs)
  from upd_tracked_cases [OF Cons.prems, of m e] show ?case
  proof (elim disjE exE conjE)
    fix out m' us'
    assume u: "updateReport (tracked m us) e = Inr (out, tracked m' us')"
      and l: "length us' \<le> 6" "0 \<notin> set us'"
    from Cons.IH [OF l, of m'] u show ?thesis
      by (auto split: sum.splits)
  next
    assume "updateReport (tracked m us) e = Inl IndexOutOfRange" "Type e = EvKeys"
      "kb_mod (Code e) = 0" "length mapping \<le> unat (Code e)"
    then show ?thesis by simp
  qed
qed

subsection \<open>Runs of key presses\<close>

lemma downs_tracked:
  assumes "list_all (\<lambda>e. key_down e \<and> regular_key (Code e)) evs"
    "distinct (us @ map (\<lambda>e. usage (Code e)) evs)" "length us + length evs \<le> 6"
  shows "applyAll (tracked m us) evs = Inr ([], tracked m (us @ map (\<lambda>e. usage (Code e)) evs))"
  using assms
proof (induction evs arbitrary: us)
  case Nil
  then show ?case by simp
next
  case (Cons e evs)
  have e: "Type e = EvKeys" "regular_key (Code e)" "usage (Code e) \<notin> set us" "length us < 6"
    using Cons.prems by (auto simp: key_down_def)
  have step: "updateReport (tracked m us) e = Inr ([], tracked m (us @ [usage (Code e)]))"
    using e by (rule upd_add)
  have "applyAll (tracked m (us @ [usage (Code e)])) evs =
      Inr ([], tracked m ((us @ [usage (Code e)]) @ map (\<lambda>e. usage (Code e)) evs))"
    using Cons.prems by (intro Cons.IH) auto
  with step show ?case by simp
qed

lemma report_tracked_full: "length us = 6 \<Longrightarrow> report (tracked m us) = m # 0 # us"
  by (simp add: tracked_def)

lemma mset_swap_remove:
  assumes "j < length us"
  shows "mset (butlast (us[j := last us])) = mset us - {#us ! j#}"
proof (cases us rule: rev_cases)
  case Nil
  with assms show ?thesis by simp
next
  case (snoc vs v)
  show ?thesis
  proof (cases "j = length vs")
    case True
    then show ?thesis by (simp add: snoc)
  next
    case False
    with assms snoc have j: "j < length vs" by simp
    then have "vs ! j \<in># mset vs" by simp
    then show ?thesis
      using j by (simp add: snoc list_update_append nth_append mset_update)
  qed
qed

lemma nonzero_tracked:
  "length us \<le> 6 \<Longrightarrow> 0 \<notin> set us \<Longrightarrow> filter (\<lambda>b. b \<noteq> 0) (drop 2 (report (tracked m us))) = us"
  by (simp add: tracked_def filter_nonzero_id)

lemma eventWriter_step:
  assumes "updateReport hid ev = Inr (out, hid')"
  shows "eventWriter dev k hid (RecvEv ev # ms) =
     (if dev k \<noteq> 8
      then (map Print out @ [Write (report hid') (dev k), Print (''ERROR: Write failed'' @ [CHR 0x0A]), Close], Returned)
      else (map Print out @ [Write (report hid') 8, Sync] @ fst (eventWriter dev (Suc k) hid' ms),
            snd (eventWriter dev (Suc k) hid' ms)))"
  using assms by (simp split: prod.splits)

lemma mapping_at_defined: "(\<exists>u. mapping_at c = Inr u) = (unat c < 194)"
  by (simp add: mapping_at_def mapping_def)

section \<open>The claims\<close>

text \<open>
  Claim C1 says that releasing a regular key whose usage ID is not in the active prefix
  leaves the report and \<open>keys\<close> unchanged.  The code does not do that: the branch of
  \<^verbatim>\<open>updateReport\<close> for a usage ID that the search did not find never reads
  \<^verbatim>\<open>ev.Value\<close>, so a release inserts the key as a press does.  From the zeroed state
  the release of code 30 (usage ID 4) yields a report that holds 4 in byte 2, and
  \<open>keys = 1\<close>.
\<close>

theorem release_untracked_key_inserts:
  "regular_key 30 \<and> key_up (keyEvent 30 0) \<and>
   usage 30 \<notin> set (take (nat (keys new_UsbHid)) (drop 2 (report new_UsbHid))) \<and>
   updateReport new_UsbHid (keyEvent 30 0) =
     Inr ([], \<lparr>report = [0, 0, 4, 0, 0, 0, 0, 0], keys = 1\<rparr>)"
  by code_simp

text \<open>
  Claim C2 says that both table lookups return a value for every code.  The modifier
  lookup does (a map index), the scancode lookup does not: \<^verbatim>\<open>mapping\<close> has 194
  entries and \<^verbatim>\<open>mapping[ev.Code]\<close> panics for every code from 194 on.  Code 194 is
  not a modifier, so \<^verbatim>\<open>updateReport\<close> reaches the lookup and panics, and the
  worker ends without a write.
\<close>

theorem mapping_lookup_panics:
  "length mapping = 194 \<and> kb_mod 194 = 0 \<and> mapping_at 194 = Inl IndexOutOfRange \<and>
   updateReport new_UsbHid (keyEvent 194 1) = Inl IndexOutOfRange \<and>
   eventWriter (\<lambda>k. 8) 0 new_UsbHid [RecvEv (keyEvent 194 1), RecvEv (keyEvent 30 1)] =
     ([Close], Panicked IndexOutOfRange)"
  by code_simp

text \<open>
  Claim C3 says that the press and release on code 0, which the key synthesis emits for
  a symbol of no table, are dropped by the branch for unmapped codes.  The synthesis
  does emit the pair on code 0, but \<^verbatim>\<open>mapping[0]\<close> is 3, not 0: the press puts usage
  ID 3 into the report, which the worker writes to the device, and no warning is
  printed.  With six keys held the pair evicts the key of byte 7 and leaves
  \<open>keys = 5\<close>.
\<close>

theorem unmapped_symbol_reported:
  assumes "tcellshiftokey r = None" and "tcelltoev r = None"
    and "\<not> (word_sle 65 r \<and> word_sle r 90)"
  shows "main_EventKey tcelltoev tcellctrltoev tcellshiftokey False r = [keyEvent 0 1, keyEvent 0 0] \<and>
    usage 0 = 3 \<and>
    updateReport new_UsbHid (keyEvent 0 1) =
      Inr ([], \<lparr>report = [0, 0, 3, 0, 0, 0, 0, 0], keys = 1\<rparr>) \<and>
    fst (eventWriter (\<lambda>k. 8) 0 new_UsbHid
          (map RecvEv (main_EventKey tcelltoev tcellctrltoev tcellshiftokey False r))) =
      [Write [0, 0, 3, 0, 0, 0, 0, 0] 8, Sync, Write [0, 0, 0, 0, 0, 0, 0, 0] 8, Sync] \<and>
    applyAll new_UsbHid
      (map (\<lambda>c. keyEvent c 1) [30, 48, 46, 32, 18, 33] @
       main_EventKey tcelltoev tcellctrltoev tcellshiftokey False r) =
      Inr ([], \<lparr>report = [0, 0, 4, 5, 6, 7, 8, 0], keys = 5\<rparr>)"
proof -
  have a: "main_EventKey tcelltoev tcellctrltoev tcellshiftokey False r = [keyEvent 0 1, keyEvent 0 0]"
    using assms by (auto simp add: main_EventKey_def lookup0_def)
  have b: "usage 0 = 3"
    by code_simp
  have c: "updateReport new_UsbHid (keyEvent 0 1) =
      Inr ([], \<lparr>report = [0, 0, 3, 0, 0, 0, 0, 0], keys = 1\<rparr>)"
    by code_simp
  have d: "fst (eventWriter (\<lambda>k. 8) 0 new_UsbHid (map RecvEv [keyEvent 0 1, keyEvent 0 0])) =
      [Write [0, 0, 3, 0, 0, 0, 0, 0] 8, Sync, Write [0, 0, 0, 0, 0, 0, 0, 0] 8, Sync]"
    by code_simp
  have e: "applyAll new_UsbHid
      (map (\<lambda>c. keyEvent c 1) [30, 48, 46, 32, 18, 33] @ [keyEvent 0 1, keyEvent 0 0]) =
      Inr ([], \<lparr>report = [0, 0, 4, 5, 6, 7, 8, 0], keys = 5\<rparr>)"
    by code_simp
  show ?thesis
    unfolding a by (intro conjI refl b c d e)
qed

theorem unmapped_symbol_reported_witness:
  "main_EventKey [97 \<mapsto> 30] [1 \<mapsto> 30] [33 \<mapsto> 2] False 126 = [keyEvent 0 1, keyEvent 0 0] \<and>
    usage 0 = 3 \<and>
    updateReport new_UsbHid (keyEvent 0 1) =
      Inr ([], \<lparr>report = [0, 0, 3, 0, 0, 0, 0, 0], keys = 1\<rparr>) \<and>
    fst (eventWriter (\<lambda>k. 8) 0 new_UsbHid
          (map RecvEv (main_EventKey [97 \<mapsto> 30] [1 \<mapsto> 30] [33 \<mapsto> 2] False 126))) =
      [Write [0, 0, 3, 0, 0, 0, 0, 0] 8, Sync, Write [0, 0, 0, 0, 0, 0, 0, 0] 8, Sync] \<and>
    applyAll new_UsbHid
      (map (\<lambda>c. keyEvent c 1) [30, 48, 46, 32, 18, 33] @
       main_EventKey [97 \<mapsto> 30] [1 \<mapsto> 30] [33 \<mapsto> 2] False 126) =
      Inr ([], \<lparr>report = [0, 0, 4, 5, 6, 7, 8, 0], keys = 5\<rparr>)"
  by (rule unmapped_symbol_reported) (simp_all add: word_sle_eq)

text \<open>
  Claim C4: a key event whose code is no modifier and maps to usage ID 0 prints the
  warning and leaves the report and \<open>keys\<close> as they are, for every state; it is no
  failure, the worker goes on to write the unchanged report and, when the device takes
  all 8 bytes, to the next event.
\<close>

theorem unmapped_code_dropped:
  assumes "Type e = EvKeys" and "kb_mod (Code e) = 0"
    and "unat (Code e) < length mapping" and "usage (Code e) = 0"
  shows "updateReport hid e = Inr ([warning (Code e)], hid) \<and>
    eventWriter dev k hid (RecvEv e # ms) =
      (if dev k \<noteq> 8
       then ([Print (warning (Code e)), Write (report hid) (dev k),
              Print (''ERROR: Write failed'' @ [CHR 0x0A]), Close], Returned)
       else (Print (warning (Code e)) # Write (report hid) 8 # Sync #
              fst (eventWriter dev (Suc k) hid ms),
             snd (eventWriter dev (Suc k) hid ms)))"
proof -
  have u: "updateReport hid e = Inr ([warning (Code e)], hid)"
    using assms by (rule upd_unmapped)
  show ?thesis
    using u by (simp add: eventWriter_step [OF u] del: eventWriter.simps)
qed

theorem unmapped_code_dropped_witness:
  "updateReport new_UsbHid (keyEvent 84 1) =
     Inr ([''Warning: No mapping for event code: 84'' @ [CHR 0x0A]], new_UsbHid) \<and>
   eventWriter (\<lambda>k. 8) 0 new_UsbHid [RecvEv (keyEvent 84 1)] =
     ([Print (''Warning: No mapping for event code: 84'' @ [CHR 0x0A]),
       Write [0, 0, 0, 0, 0, 0, 0, 0] 8, Sync], Waiting new_UsbHid)"
proof -
  have h: "Type (keyEvent 84 1) = EvKeys" "kb_mod (Code (keyEvent 84 1)) = 0"
    "unat (Code (keyEvent 84 1)) < length mapping" "usage (Code (keyEvent 84 1)) = 0"
    by code_simp+
  have w: "warning (Code (keyEvent 84 1)) = ''Warning: No mapping for event code: 84'' @ [CHR 0x0A]"
    by code_simp
  from unmapped_code_dropped [OF h, of new_UsbHid "\<lambda>k. 8" 0 "[]"]
  show ?thesis
    unfolding w by (simp add: new_UsbHid_def)
qed

text \<open>
  Claim C5: from the zeroed state, presses of six regular keys with distinct usage IDs
  fill bytes 2--7 with these usage IDs (in the order of the presses) and give
  \<open>keys = 6\<close>; a seventh press with a further usage ID returns without a panic and
  without output, keeps \<open>keys = 6\<close> and changes byte 7 only, to the new usage ID.
\<close>

theorem rollover_capacity:
  assumes "length evs = 6"
    and "list_all (\<lambda>e. key_down e \<and> regular_key (Code e)) evs"
    and "distinct (map (\<lambda>e. usage (Code e)) evs)"
    and "key_down e7" and "regular_key (Code e7)"
    and "usage (Code e7) \<notin> set (map (\<lambda>e. usage (Code e)) evs)"
  shows "\<exists>h6 h7. applyAll new_UsbHid evs = Inr ([], h6) \<and>
           report h6 = 0 # 0 # map (\<lambda>e. usage (Code e)) evs \<and> keys h6 = 6 \<and>
           updateReport h6 e7 = Inr ([], h7) \<and>
           report h7 = (report h6)[7 := usage (Code e7)] \<and> keys h7 = 6"
proof -
  let ?us = "map (\<lambda>e. usage (Code e)) evs"
  have six: "length ?us = 6" using assms(1) by simp
  have a: "applyAll new_UsbHid evs = Inr ([], tracked 0 ?us)"
    unfolding new_UsbHid_tracked using downs_tracked [of evs "[]" 0] assms(1,2,3) by simp
  have b: "updateReport (tracked 0 ?us) e7 = Inr ([], tracked 0 (?us[5 := usage (Code e7)]))"
    using assms(4,5,6) six by (intro upd_overflow) (simp_all add: key_down_def)
  have c: "report (tracked 0 (?us[5 := usage (Code e7)])) = (report (tracked 0 ?us))[7 := usage (Code e7)]"
    using six by (simp add: report_tracked_full numeral_eq_Suc)
  have d: "keys (tracked 0 ?us) = 6" "keys (tracked 0 (?us[5 := usage (Code e7)])) = 6"
    using six by (simp_all add: tracked_def)
  from a b c d report_tracked_full [OF six, of 0] show ?thesis by auto
qed

theorem rollover_capacity_witness:
  "\<exists>h6 h7. applyAll new_UsbHid (map (\<lambda>c. keyEvent c 1) [30, 48, 46, 32, 18, 33]) = Inr ([], h6) \<and>
     report h6 = [0, 0, 4, 5, 6, 7, 8, 9] \<and> keys h6 = 6 \<and>
     updateReport h6 (keyEvent 34 1) = Inr ([], h7) \<and>
     report h7 = [0, 0, 4, 5, 6, 7, 8, 10] \<and> keys h7 = 6"
proof -
  let ?evs = "map (\<lambda>c. keyEvent c 1) [30, 48, 46, 32, 18, 33]"
  have h: "length ?evs = 6" "list_all (\<lambda>e. key_down e \<and> regular_key (Code e)) ?evs"
    "distinct (map (\<lambda>e. usage (Code e)) ?evs)" "key_down (keyEvent 34 1)"
    "regular_key (Code (keyEvent 34 1))"
    "usage (Code (keyEvent 34 1)) \<notin> set (map (\<lambda>e. usage (Code e)) ?evs)"
    by code_simp+
  have u: "map (\<lambda>e. usage (Code e)) ?evs = [4, 5, 6, 7, 8, 9]" "usage (Code (keyEvent 34 1)) = 10"
    by code_simp+
  have l: "[0, 0, 4, 5, 6, 7, 8, 9 :: byte][7 := 10] = [0, 0, 4, 5, 6, 7, 8, 10]"
    by code_simp
  from rollover_capacity [OF h] obtain h6 h7 where
    r: "applyAll new_UsbHid ?evs = Inr ([], h6)"
      "report h6 = 0 # 0 # map (\<lambda>e. usage (Code e)) ?evs" "keys h6 = 6"
      "updateReport h6 (keyEvent 34 1) = Inr ([], h7)"
      "report h7 = (report h6)[7 := usage (Code (keyEvent 34 1))]" "keys h7 = 6"
    by blast
  have r6: "report h6 = [0, 0, 4, 5, 6, 7, 8, 9]"
    using r(2) unfolding u .
  have r7: "report h7 = [0, 0, 4, 5, 6, 7, 8, 10]"
    using r(5) unfolding u r6 l .
  from r(1,3,4,6) r6 r7 show ?thesis by blast
qed

text \<open>
  Claim C6: in the state that \<open>N \<le> 6\<close> presses of regular keys with distinct usage IDs
  reach from the zeroed state, the release of the key of slot \<open>2 + j\<close>, a slot before
  the last active one, copies the byte of slot \<open>2 + keys - 1\<close> into slot \<open>2 + j\<close>, zeroes
  slot \<open>2 + keys - 1\<close> and decrements \<open>keys\<close>; the multiset of the non-zero bytes among
  bytes 2--7 loses the usage ID of the released key and nothing else.
\<close>

theorem release_swaps_with_last:
  assumes "length evs \<le> 6"
    and "list_all (\<lambda>e. key_down e \<and> regular_key (Code e)) evs"
    and "distinct (map (\<lambda>e. usage (Code e)) evs)"
    and "Suc j < length evs"
    and "key_up e" and "Code e = Code (evs ! j)"
  shows "\<exists>h h'. applyAll new_UsbHid evs = Inr ([], h) \<and> updateReport h e = Inr ([], h') \<and>
           report h ! (2 + j) = usage (Code e) \<and>
           report h' = (report h)[2 + j := report h ! (2 + nat (keys h) - 1),
                                  2 + nat (keys h) - 1 := 0] \<and>
           keys h' = keys h - 1 \<and>
           mset (filter (\<lambda>b. b \<noteq> 0) (drop 2 (report h'))) =
             mset (filter (\<lambda>b. b \<noteq> 0) (drop 2 (report h))) - {#usage (Code e)#}"
proof -
  let ?us = "map (\<lambda>e. usage (Code e)) evs"
  let ?vs = "butlast (?us[j := last ?us])"
  have j: "j < length ?us" and len: "length ?us \<le> 6" using assms(1,4) by simp_all
  have u: "?us ! j = usage (Code e)" using assms(4,6) by simp
  have reg: "regular_key (Code e)"
    using assms(2,4,6) by (simp add: list_all_length)
  have nz: "0 \<notin> set ?us"
    using assms(2) by (auto simp: list_all_iff regular_key_def)
  have nz': "0 \<notin> set ?vs" using nz set_swap_remove [of ?us j] by blast
  have a: "applyAll new_UsbHid evs = Inr ([], tracked 0 ?us)"
    unfolding new_UsbHid_tracked using downs_tracked [of evs "[]" 0] assms(1,2,3) by simp
  have f: "findKey ?us (usage (Code e)) 0 = int j"
    using findKey_distinct [OF assms(3) j, of 0] u by simp
  have b: "updateReport (tracked 0 ?us) e = Inr ([], tracked 0 ?vs)"
    using assms(5) reg len f j by (intro upd_release) (simp_all add: key_up_def)
  have c: "report (tracked 0 ?us) ! (2 + j) = usage (Code e)"
    using j u by (simp add: tracked_def nth_append)
  have d: "report (tracked 0 ?vs) =
      (report (tracked 0 ?us))[2 + j := report (tracked 0 ?us) ! (2 + nat (keys (tracked 0 ?us)) - 1),
                               2 + nat (keys (tracked 0 ?us)) - 1 := 0]"
    using swap_remove_list [OF j len, of 0] by (simp add: tracked_def)
  have k: "keys (tracked 0 ?vs) = keys (tracked 0 ?us) - 1"
    using j by (simp add: tracked_def)
  have m: "mset (filter (\<lambda>b. b \<noteq> 0) (drop 2 (report (tracked 0 ?vs)))) =
      mset (filter (\<lambda>b. b \<noteq> 0) (drop 2 (report (tracked 0 ?us)))) - {#usage (Code e)#}"
    using mset_swap_remove [OF j] u nz nz' len
    by (simp add: nonzero_tracked del: mset_map)
  from a b c d k m show ?thesis by blast
qed

theorem release_swaps_with_last_witness:
  "\<exists>h h'. applyAll new_UsbHid (map (\<lambda>c. keyEvent c 1) [30, 48, 46]) = Inr ([], h) \<and>
     updateReport h (keyEvent 30 0) = Inr ([], h') \<and>
     report h = [0, 0, 4, 5, 6, 0, 0, 0] \<and> keys h = 3 \<and>
     report h' = [0, 0, 6, 5, 0, 0, 0, 0] \<and> keys h' = 2 \<and>
     mset (filter (\<lambda>b. b \<noteq> 0) (drop 2 (report h'))) =
       mset (filter (\<lambda>b. b \<noteq> 0) (drop 2 (report h))) - {#4#}"
proof -
  let ?evs = "map (\<lambda>c. keyEvent c 1) [30, 48, 46]"
  have h: "length ?evs \<le> 6" "list_all (\<lambda>e. key_down e \<and> regular_key (Code e)) ?evs"
    "distinct (map (\<lambda>e. usage (Code e)) ?evs)" "Suc 0 < length ?evs"
    "key_up (keyEvent 30 0)" "Code (keyEvent 30 0) = Code (?evs ! 0)"
    by code_simp+
  have a: "applyAll new_UsbHid ?evs = Inr ([], \<lparr>report = [0, 0, 4, 5, 6, 0, 0, 0], keys = 3\<rparr>)"
    by code_simp
  have b: "updateReport \<lparr>report = [0, 0, 4, 5, 6, 0, 0, 0], keys = 3\<rparr> (keyEvent 30 0) =
      Inr ([], \<lparr>report = [0, 0, 6, 5, 0, 0, 0, 0], keys = 2\<rparr>)"
    by code_simp
  have u: "usage (Code (keyEvent 30 0)) = 4"
    by code_simp
  from release_swaps_with_last [OF h] obtain g g' where
    r: "applyAll new_UsbHid ?evs = Inr ([], g)" "updateReport g (keyEvent 30 0) = Inr ([], g')"
      "mset (filter (\<lambda>b. b \<noteq> 0) (drop 2 (report g'))) =
         mset (filter (\<lambda>b. b \<noteq> 0) (drop 2 (report g))) - {#usage (Code (keyEvent 30 0))#}"
    by blast
  from r(1) a have g: "g = \<lparr>report = [0, 0, 4, 5, 6, 0, 0, 0], keys = 3\<rparr>" by simp
  from r(2) b g have g': "g' = \<lparr>report = [0, 0, 6, 5, 0, 0, 0, 0], keys = 2\<rparr>" by simp
  show ?thesis
    using r g g' u by (intro exI [of _ g] exI [of _ g']) simp
qed

text \<open>
  Claim C7: for a modifier code and any state, a second press after a press (or a second
  release after a release) returns the state of the first, so byte 0 is the same after
  two events as after one; a modifier event changes neither bytes 1--7 nor \<open>keys\<close>.
\<close>

theorem modifier_idempotent:
  assumes "Type e1 = EvKeys" and "Type e2 = EvKeys" and "kb_mod (Code e1) \<noteq> 0"
    and "Code e2 = Code e1" and "(Value e2 = 0) = (Value e1 = 0)"
  shows "\<exists>h1. updateReport hid e1 = Inr ([], h1) \<and> updateReport h1 e2 = Inr ([], h1) \<and>
           drop 1 (report h1) = drop 1 (report hid) \<and> keys h1 = keys hid"
  using assms by (cases "report hid") (auto simp: updateReport_def)

theorem modifier_idempotent_witness:
  "\<exists>h1. updateReport new_UsbHid (keyEvent 42 1) = Inr ([], h1) \<and>
     updateReport h1 (keyEvent 42 2) = Inr ([], h1) \<and>
     drop 1 (report h1) = drop 1 (report new_UsbHid) \<and> keys h1 = keys new_UsbHid"
  by (rule modifier_idempotent) code_simp+

text \<open>
  Claim C8: every sequence of \<^verbatim>\<open>updateReport\<close> calls from the zeroed state that
  returns ends in a state satisfying the invariant: \<open>keys\<close> is in \<open>[0, 6]\<close> and is the
  number of non-zero bytes among bytes 2--7, these bytes fill the slots
  \<open>[2, 2 + keys)\<close>, and byte 1 is 0.  A sequence that does not return has met a key
  event whose code lies beyond the scancode table; the slice expression never panics.
\<close>

theorem ReportState_inv_preserved:
  "(case applyAll new_UsbHid evs of
      Inr (out, hid) \<Rightarrow> ReportState_inv hid
    | Inl p \<Rightarrow> p = IndexOutOfRange \<and>
        (\<exists>e \<in> set evs. Type e = EvKeys \<and> kb_mod (Code e) = 0 \<and> length mapping \<le> unat (Code e)))"
  unfolding new_UsbHid_tracked by (rule applyAll_tracked) simp_all

theorem ReportState_inv_preserved_witness:
  "applyAll new_UsbHid
     [keyEvent 35 1, keyEvent 35 0, keyEvent 42 1, keyEvent 18 1, keyEvent 38 1, keyEvent 18 0] =
     Inr ([], \<lparr>report = [2, 0, 15, 0, 0, 0, 0, 0], keys = 1\<rparr>) \<and>
   ReportState_inv \<lparr>report = [2, 0, 15, 0, 0, 0, 0, 0], keys = 1\<rparr>"
proof -
  have e: "applyAll new_UsbHid
     [keyEvent 35 1, keyEvent 35 0, keyEvent 42 1, keyEvent 18 1, keyEvent 38 1, keyEvent 18 0] =
     Inr ([], \<lparr>report = [2, 0, 15, 0, 0, 0, 0, 0], keys = 1\<rparr>)"
    by code_simp
  from ReportState_inv_preserved
    [of "[keyEvent 35 1, keyEvent 35 0, keyEvent 42 1, keyEvent 18 1, keyEvent 38 1, keyEvent 18 0]"]
  show ?thesis
    unfolding e by simp
qed

text \<open>
  Claim C9: after any run of events that were applied and written in full, the worker
  applies the next event and writes the 8 bytes of the report once.  When the device
  takes a number of bytes other than 8, the worker prints the error, closes the file
  and returns, whatever events follow; otherwise it calls \<^verbatim>\<open>Sync\<close> and only then
  takes the next event.
\<close>

theorem short_write_ends_worker:
  assumes "applyAll hid evs = Inr (outs, hid1)"
    and "list_all (\<lambda>i. dev (k + i) = 8) [0..<length evs]"
    and "updateReport hid1 ev = Inr (out, hid2)"
  shows "eventWriter dev k hid (map RecvEv evs @ RecvEv ev # ms) =
     (if dev (k + length evs) \<noteq> 8
      then (fst (eventWriter dev k hid (map RecvEv evs)) @ map Print out @
            [Write (report hid2) (dev (k + length evs)),
             Print (''ERROR: Write failed'' @ [CHR 0x0A]), Close],
            Returned)
      else (fst (eventWriter dev k hid (map RecvEv evs)) @ map Print out @
            [Write (report hid2) 8, Sync] @
            fst (eventWriter dev (Suc (k + length evs)) hid2 ms),
            snd (eventWriter dev (Suc (k + length evs)) hid2 ms)))"
  using assms
proof (induction evs arbitrary: hid k outs)
  case Nil
  then show ?case by (simp add: case_prod_beta)
next
  case (Cons e evs)
  from Cons.prems(1) obtain o1 h1 o2 where
    s: "updateReport hid e = Inr (o1, h1)" and r: "applyAll h1 evs = Inr (o2, hid1)"
    by (auto split: sum.splits prod.splits)
  have all: "\<forall>i<Suc (length evs). dev (k + i) = 8"
    using Cons.prems(2) by (simp add: list_all_iff del: upt_Suc)
  then have d0: "dev k = 8" by force
  have "dev (k + Suc i) = 8" if "i < length evs" for i
    using all that by (metis Suc_less_eq)
  then have dr: "list_all (\<lambda>i. dev (Suc k + i) = 8) [0..<length evs]"
    by (simp add: list_all_iff)
  note ih = Cons.IH [OF r dr Cons.prems(3)]
  show ?case
    using ih d0 by (simp add: eventWriter_step [OF s] del: eventWriter.simps)
qed

theorem short_write_ends_worker_witness:
  "eventWriter (\<lambda>k. if k = 1 then 3 else 8) 0 new_UsbHid
     [RecvEv (keyEvent 30 1), RecvEv (keyEvent 30 0), RecvEv (keyEvent 48 1)] =
   ([Write [0, 0, 4, 0, 0, 0, 0, 0] 8, Sync, Write [0, 0, 0, 0, 0, 0, 0, 0] 3,
     Print (''ERROR: Write failed'' @ [CHR 0x0A]), Close], Returned)"
proof -
  let ?dev = "\<lambda>k::nat. if k = 1 then 3 else (8::nat)"
  have a: "applyAll new_UsbHid [keyEvent 30 1] =
      Inr ([], \<lparr>report = [0, 0, 4, 0, 0, 0, 0, 0], keys = 1\<rparr>)"
    by code_simp
  have b: "list_all (\<lambda>i. ?dev (0 + i) = 8) [0..<length [keyEvent 30 1]]"
    by code_simp
  have c: "updateReport \<lparr>report = [0, 0, 4, 0, 0, 0, 0, 0], keys = 1\<rparr> (keyEvent 30 0) =
      Inr ([], \<lparr>report = [0, 0, 0, 0, 0, 0, 0, 0], keys = 0\<rparr>)"
    by code_simp
  have p: "fst (eventWriter ?dev 0 new_UsbHid (map RecvEv [keyEvent 30 1])) =
      [Write [0, 0, 4, 0, 0, 0, 0, 0] 8, Sync]"
    by code_simp
  from short_write_ends_worker [OF a b c, of "[RecvEv (keyEvent 48 1)]"] p
  show ?thesis by simp
qed

text \<open>
  Claim C10: an event whose type is not \<^verbatim>\<open>EvKeys\<close> leaves the report and \<open>keys\<close>
  as they are and prints nothing; the worker still writes the unchanged report and,
  as for a key event, calls \<^verbatim>\<open>Sync\<close> when the device took all 8 bytes and ends
  otherwise.
\<close>

theorem non_key_event_frame:
  assumes "Type e \<noteq> EvKeys"
  shows "updateReport hid e = Inr ([], hid) \<and>
    eventWriter dev k hid (RecvEv e # ms) =
      (if dev k \<noteq> 8
       then ([Write (report hid) (dev k), Print (''ERROR: Write failed'' @ [CHR 0x0A]), Close],
             Returned)
       else (Write (report hid) 8 # Sync # fst (eventWriter dev (Suc k) hid ms),
             snd (eventWriter dev (Suc k) hid ms)))"
proof -
  have u: "updateReport hid e = Inr ([], hid)"
    using assms by (rule upd_other_type)
  show ?thesis
    using u by (simp add: eventWriter_step [OF u] del: eventWriter.simps)
qed

theorem non_key_event_frame_witness:
  "updateReport \<lparr>report = [2, 0, 4, 0, 0, 0, 0, 0], keys = 1\<rparr> \<lparr>Type = 0, Code = 0, Value = 0\<rparr> =
     Inr ([], \<lparr>report = [2, 0, 4, 0, 0, 0, 0, 0], keys = 1\<rparr>) \<and>
   eventWriter (\<lambda>k. 8) 0 \<lparr>report = [2, 0, 4, 0, 0, 0, 0, 0], keys = 1\<rparr>
     [RecvEv \<lparr>Type = 0, Code = 0, Value = 0\<rparr>] =
     ([Write [2, 0, 4, 0, 0, 0, 0, 0] 8, Sync],
      Waiting \<lparr>report = [2, 0, 4, 0, 0, 0, 0, 0], keys = 1\<rparr>)"
  using non_key_event_frame
    [of "\<lparr>Type = 0, Code = 0, Value = 0\<rparr>" "\<lparr>report = [2, 0, 4, 0, 0, 0, 0, 0], keys = 1\<rparr>"
        "\<lambda>k. 8" 0 "[]"]
  by (simp add: EvKeys_def)

end
